theory Spec2Isabelle
  imports Main "HOL-Library.Word"
begin

unbundle bit_operations_syntax

section \<open>PacketLib: the frame codec and the dispatcher of \<^verbatim>\<open>main.ts\<close>\<close>

text \<open>
  The development follows the namespace \<^verbatim>\<open>PacketLib\<close> of \<^verbatim>\<open>main.ts\<close> (the variant with
  the defensive bounds checks, lines 44 to 297 of the file). The file also holds a second
  copy of the namespace, from line 316 on, without the bounds checks, the destination test
  and the identifier generation in \<^verbatim>\<open>sendPacket\<close>; the specification takes the
  defensive variant as the authoritative one, and so does this development.

  Data. A \<^verbatim>\<open>Buffer\<close> is a list of bytes (\<open>8 word\<close>). A TypeScript \<^verbatim>\<open>number\<close> that
  holds a length, an offset, an identifier or a flag set is a \<open>nat\<close>. A TypeScript string
  is the list of its character codes, so that \<^verbatim>\<open>charCodeAt\<close> and
  \<^verbatim>\<open>String.fromCharCode\<close> are the identity on codes and a code that does not fit a byte
  is visibly cut when it is stored into a buffer.
\<close>

type_synonym byte = "8 word"
type_synonym buffer = "byte list"
type_synonym jstring = "nat list"

subsection \<open>The buffer primitives of the platform\<close>

text \<open>
  The buffer operations are not part of the repository; they are the ones the code calls.
  An element read outside the buffer gives 0, an element write outside the buffer is
  ignored, and a stored number is cut to its low eight bits.
\<close>

definition createBuffer :: "nat \<Rightarrow> buffer" where
  "createBuffer n = replicate n 0"

definition getByte :: "buffer \<Rightarrow> nat \<Rightarrow> nat" where
  "getByte buf i = (if i < length buf then unat (buf ! i) else 0)"

definition setByte :: "buffer \<Rightarrow> nat \<Rightarrow> nat \<Rightarrow> buffer" where
  "setByte buf i v = (if i < length buf then buf[i := of_nat v] else buf)"

text \<open>\<^verbatim>\<open>buf.setNumber(NumberFormat.UInt16LE, offset, v)\<close> and the matching \<^verbatim>\<open>getNumber\<close>.\<close>

definition setUInt16LE :: "buffer \<Rightarrow> nat \<Rightarrow> nat \<Rightarrow> buffer" where
  "setUInt16LE buf off v = setByte (setByte buf off (v mod 256)) (off + 1) ((v div 256) mod 256)"

definition getUInt16LE :: "buffer \<Rightarrow> nat \<Rightarrow> nat" where
  "getUInt16LE buf off = getByte buf off + 256 * getByte buf (off + 1)"

text \<open>
  Modelled from the spec: \<^verbatim>\<open>Buffer.slice\<close>, which the repository calls and does not
  define. The specification reads its two arguments as the start and the end of the
  copied range ("the payload slice end is clamped to min(offset+payloadLen,
  bufferLength-1)"); both are cut to the buffer.
\<close>

definition slice :: "buffer \<Rightarrow> nat \<Rightarrow> nat \<Rightarrow> buffer" where
  "slice buf start end = take (end - start) (drop start buf)"

subsection \<open>Constants and types\<close>

definition PROTOCOL_VERSION :: nat where
  "PROTOCOL_VERSION = 1"

definition FLAG_ACK_REQUIRED :: nat where
  "FLAG_ACK_REQUIRED = 1"

definition FLAG_IS_ACK :: nat where
  "FLAG_IS_ACK = 2"

text \<open>The interface \<^verbatim>\<open>Packet\<close>; the fields carry the prefix \<open>pkt_\<close>.\<close>

record Packet =
  pkt_version :: nat
  pkt_flags :: nat
  pkt_id :: nat
  pkt_source :: jstring
  pkt_destination :: jstring
  pkt_payload :: buffer

subsection \<open>Utility functions\<close>

text \<open>
  \<^verbatim>\<open>copyBuffer(src, dst, offset)\<close>: the loop
  \<^verbatim>\<open>for (i = 0; i < src.length && offset + i < dst.length; i++) dst[offset + i] = src[i]\<close>.
\<close>

function copyBuffer_loop :: "buffer \<Rightarrow> buffer \<Rightarrow> nat \<Rightarrow> nat \<Rightarrow> buffer" where
  "copyBuffer_loop src dst offset i =
     (if i < length src \<and> offset + i < length dst
      then copyBuffer_loop src (dst[offset + i := src ! i]) offset (Suc i)
      else dst)"
  by pat_completeness auto
termination
  by (relation "measure (\<lambda>(src, dst, offset, i). length src - i)") auto

declare copyBuffer_loop.simps [simp del]

definition copyBuffer :: "buffer \<Rightarrow> buffer \<Rightarrow> nat \<Rightarrow> buffer" where
  "copyBuffer src dst offset = copyBuffer_loop src dst offset 0"

text \<open>
  \<^verbatim>\<open>computeChecksum(buf, length)\<close>: the accumulator only ever holds the XOR of bytes, so
  it is a byte; the final mask \<^verbatim>\<open>sum & 0xFF\<close> is written out.
\<close>

function computeChecksum_loop :: "buffer \<Rightarrow> nat \<Rightarrow> nat \<Rightarrow> byte \<Rightarrow> byte" where
  "computeChecksum_loop buf len i acc =
     (if i < len \<and> i < length buf
      then computeChecksum_loop buf len (Suc i) (acc XOR buf ! i)
      else acc)"
  by pat_completeness auto
termination
  by (relation "measure (\<lambda>(buf, len, i, acc). len - i)") auto

declare computeChecksum_loop.simps [simp del]

definition computeChecksum :: "buffer \<Rightarrow> nat \<Rightarrow> nat" where
  "computeChecksum buf len = unat (computeChecksum_loop buf len 0 0 AND 0xFF)"

text \<open>
  \<^verbatim>\<open>writeString(buf, offset, value)\<close> returns the buffer after the writes and the
  number the source returns.
\<close>

function writeString_loop :: "buffer \<Rightarrow> nat \<Rightarrow> jstring \<Rightarrow> nat \<Rightarrow> buffer" where
  "writeString_loop buf offset val i =
     (if i < length val \<and> offset + 1 + i < length buf
      then writeString_loop (setByte buf (offset + 1 + i) (val ! i)) offset val (Suc i)
      else buf)"
  by pat_completeness auto
termination
  by (relation "measure (\<lambda>(buf, offset, val, i). length val - i)") auto

declare writeString_loop.simps [simp del]

definition writeString :: "buffer \<Rightarrow> nat \<Rightarrow> jstring \<Rightarrow> buffer \<times> nat" where
  "writeString buf offset val =
     (writeString_loop (setByte buf offset (length val)) offset val 0, 1 + length val)"

text \<open>
  \<^verbatim>\<open>readString(buf, offset)\<close> returns the pair of \<^verbatim>\<open>value\<close> and \<^verbatim>\<open>size\<close>. The
  clamp \<^verbatim>\<open>Math.max(0, buf.length - (offset + 1))\<close> is computed on integers.
\<close>

function readString_loop :: "buffer \<Rightarrow> nat \<Rightarrow> nat \<Rightarrow> nat \<Rightarrow> jstring \<Rightarrow> jstring" where
  "readString_loop buf offset len i s =
     (if i < len
      then readString_loop buf offset len (Suc i) (s @ [getByte buf (offset + 1 + i)])
      else s)"
  by pat_completeness auto
termination
  by (relation "measure (\<lambda>(buf, offset, len, i, s). len - i)") auto

declare readString_loop.simps [simp del]

definition readString :: "buffer \<Rightarrow> nat \<Rightarrow> jstring \<times> nat" where
  "readString buf offset =
     (let len0 = getByte buf offset;
          len = (if offset + 1 + len0 > length buf
                 then nat (max 0 (int (length buf) - int (offset + 1)))
                 else len0)
      in (readString_loop buf offset len 0 [], 1 + len))"

subsection \<open>Internal state\<close>

text \<open>
  The three variables of the namespace (\<^verbatim>\<open>localId\<close>, \<^verbatim>\<open>receiveHandler\<close>,
  \<^verbatim>\<open>pendingAcks\<close>) together with what the code does to its collaborators:
  \<^item> \<open>receiveHandler\<close> is \<open>True\<close> when a handler is registered (the variable is not
    \<^verbatim>\<open>null\<close>), and \<open>handled\<close> lists the packets the handler was invoked with;
  \<^item> \<open>sent\<close> lists the frames handed to \<^verbatim>\<open>radio.sendBuffer\<close>;
  \<^item> \<open>rng\<close> is the sequence of results of \<^verbatim>\<open>randint(1, 65535)\<close> and \<open>drawn\<close> counts
    the calls made so far.
\<close>

record State =
  localId :: jstring
  receiveHandler :: bool
  pendingAcks :: "nat list"
  sent :: "buffer list"
  handled :: "Packet list"
  rng :: "nat \<Rightarrow> nat"
  drawn :: nat

definition generatePacketId :: "State \<Rightarrow> nat \<times> State" where
  "generatePacketId s = (rng s (drawn s), s\<lparr>drawn := Suc (drawn s)\<rparr>)"

text \<open>A string literal of the source as a list of character codes.\<close>

definition jstr :: "string \<Rightarrow> jstring" where
  "jstr cs = map of_char cs"

subsection \<open>Encoding\<close>

definition encodePacket :: "State \<Rightarrow> nat \<Rightarrow> jstring \<Rightarrow> buffer \<Rightarrow> nat \<Rightarrow> buffer \<times> State" where
  "encodePacket s ident destination payload flags =
     (let (ident1, s1) = (if ident = 0 then generatePacketId s else (ident, s));
          payloadLen = (if length payload > 255 then 255 else length payload);
          baseSize = 1 + 1 + 2 + 1 + length (localId s1) + 1 + length destination
                     + 1 + payloadLen + 1;
          buf0 = createBuffer baseSize;
          buf1 = setByte buf0 0 PROTOCOL_VERSION;
          buf2 = setByte buf1 1 flags;
          buf3 = setUInt16LE buf2 2 ident1;
          offset3 = 4;
          (buf4, n4) = writeString buf3 offset3 (localId s1);
          offset4 = offset3 + n4;
          (buf5, n5) = writeString buf4 offset4 destination;
          offset5 = offset4 + n5;
          buf6 = setByte buf5 offset5 payloadLen;
          offset6 = offset5 + 1;
          buf7 = copyBuffer (slice payload 0 payloadLen) buf6 offset6;
          offset7 = offset6 + payloadLen;
          buf8 = setByte buf7 offset7 (computeChecksum buf7 offset7)
      in (buf8, s1))"

subsection \<open>Decoding\<close>

text \<open>
  In \<^verbatim>\<open>if (end > buf.length - 1) end = buf.length - 1\<close> the bound is \<open>-1\<close> for the
  empty buffer; there every slice is empty, as it is with the bound 0 that the
  subtraction on \<open>nat\<close> gives.
\<close>

definition decodePacket :: "buffer \<Rightarrow> Packet" where
  "decodePacket buf =
     (let version = getByte buf 0;
          flags = getByte buf 1;
          ident = getUInt16LE buf 2;
          offset2 = 4;
          src = readString buf offset2;
          offset3 = offset2 + snd src;
          dst = readString buf offset3;
          offset4 = offset3 + snd dst;
          payloadLen = getByte buf offset4;
          offset5 = offset4 + 1;
          end0 = offset5 + payloadLen;
          end1 = (if end0 > length buf - 1 then length buf - 1 else end0);
          payload = slice buf offset5 end1
      in \<lparr>pkt_version = version, pkt_flags = flags, pkt_id = ident,
          pkt_source = fst src, pkt_destination = fst dst, pkt_payload = payload\<rparr>)"

subsection \<open>Public API\<close>

definition sendPacket :: "State \<Rightarrow> nat \<Rightarrow> buffer \<Rightarrow> jstring \<Rightarrow> nat \<Rightarrow> State" where
  "sendPacket s ident payload destination flags =
     (let (ident1, s1) = (if ident = 0 then generatePacketId s else (ident, s));
          (pkt, s2) = encodePacket s1 ident1 destination payload flags;
          s3 = s2\<lparr>sent := sent s2 @ [pkt]\<rparr>
      in if flags AND FLAG_ACK_REQUIRED \<noteq> 0
         then s3\<lparr>pendingAcks := pendingAcks s3 @ [ident1]\<rparr>
         else s3)"

definition onReceivePacket :: "State \<Rightarrow> State" where
  "onReceivePacket s = s\<lparr>receiveHandler := True\<rparr>"

subsection \<open>Radio integration\<close>

text \<open>The array operations \<^verbatim>\<open>indexOf\<close> (first index, or -1) and \<^verbatim>\<open>removeAt\<close>.\<close>

fun indexOf_from :: "nat list \<Rightarrow> nat \<Rightarrow> nat \<Rightarrow> int" where
  "indexOf_from [] x i = - 1"
| "indexOf_from (y # ys) x i = (if y = x then int i else indexOf_from ys x (Suc i))"

definition indexOf :: "nat list \<Rightarrow> nat \<Rightarrow> int" where
  "indexOf xs x = indexOf_from xs x 0"

definition removeAt :: "nat list \<Rightarrow> nat \<Rightarrow> nat list" where
  "removeAt xs i = take i xs @ drop (Suc i) xs"

text \<open>
  The callback given to \<^verbatim>\<open>radio.onReceivedBuffer\<close>. The argument is \<open>None\<close> when the
  buffer is absent (\<^verbatim>\<open>!buf\<close>).
\<close>

definition onReceivedBuffer :: "State \<Rightarrow> buffer option \<Rightarrow> State" where
  "onReceivedBuffer s arg =
     (case arg of
        None \<Rightarrow> s
      | Some buf \<Rightarrow>
          if length buf < 6 then s
          else
            let checksum = getByte buf (length buf - 1) in
            if computeChecksum buf (length buf - 1) \<noteq> checksum then s
            else
              let packet = decodePacket buf in
              if pkt_flags packet AND FLAG_IS_ACK \<noteq> 0
              then
                (let idx = indexOf (pendingAcks s) (pkt_id packet)
                 in if idx \<ge> 0 then s\<lparr>pendingAcks := removeAt (pendingAcks s) (nat idx)\<rparr>
                    else s)
              else
                let s1 = (if pkt_flags packet AND FLAG_ACK_REQUIRED \<noteq> 0
                          then (let (ack, s') = encodePacket s (pkt_id packet)
                                                  (pkt_source packet) (createBuffer 0) FLAG_IS_ACK
                                in s'\<lparr>sent := sent s' @ [ack]\<rparr>)
                          else s)
                in if receiveHandler s1 \<and>
                      (pkt_destination packet = localId s1 \<or>
                       pkt_destination packet = jstr ''*'' \<or>
                       pkt_destination packet = jstr '''')
                   then s1\<lparr>handled := handled s1 @ [packet]\<rparr>
                   else s1)"

text \<open>The XOR of a list of bytes, used to state what \<open>computeChecksum\<close> computes.\<close>

definition xorAll :: "byte list \<Rightarrow> byte" where
  "xorAll xs = foldr (XOR) xs 0"

text \<open>
  The bytes of a frame before its checksum byte, in the order \<open>encodePacket\<close> writes
  them; it is used to state what the encoder produces.
\<close>

definition frameBody :: "jstring \<Rightarrow> nat \<Rightarrow> jstring \<Rightarrow> buffer \<Rightarrow> nat \<Rightarrow> buffer" where
  "frameBody lid ident destination payload flags =
     [1, of_nat flags, of_nat (ident mod 256), of_nat (ident div 256 mod 256)]
     @ of_nat (length lid) # map of_nat lid
     @ of_nat (length destination) # map of_nat destination
     @ of_nat (min 255 (length payload)) # take 255 payload"

text \<open>Concrete inputs for the examples: a random source, a state and an inbound frame.\<close>

definition exampleRng :: "nat \<Rightarrow> nat" where
  "exampleRng n = 4242"

definition exampleState :: State where
  "exampleState = \<lparr>localId = jstr ''123'', receiveHandler = True, pendingAcks = [7, 9, 7],
     sent = [], handled = [], rng = exampleRng, drawn = 0\<rparr>"

definition zeroIdFrame :: buffer where
  "zeroIdFrame = [1, 1, 0, 0, 1, 65, 0, 0, 64]"

section \<open>Bytes and buffers\<close>

lemma unat_of_nat_byte: "n < 256 \<Longrightarrow> unat (of_nat n :: byte) = n"
  by (simp add: unat_of_nat)

lemma unat_byte_less: "unat (b :: byte) < 256"
  using unsigned_less [of b] by simp

lemma getByte_less: "getByte buf i < 256"
  by (simp add: getByte_def unat_byte_less)

lemma length_setByte: "length (setByte buf i v) = length buf"
  by (simp add: setByte_def)

lemma setByte_append: "length pre = i \<Longrightarrow> setByte (pre @ x # post) i v = pre @ of_nat v # post"
  by (auto simp: setByte_def)

lemma getByte_append: "length pre = i \<Longrightarrow> getByte (pre @ x # post) i = unat x"
  by (auto simp: getByte_def)

section \<open>The checksum is the XOR of the checked range\<close>

lemma xorAll_simps [simp]: "xorAll [] = 0" "xorAll (x # xs) = x XOR xorAll xs"
  by (simp_all add: xorAll_def)

lemma xorAll_append: "xorAll (xs @ ys) = xorAll xs XOR xorAll ys"
  by (induction xs) (simp_all add: ac_simps)

lemma computeChecksum_loop_eq:
  "computeChecksum_loop buf len i acc = acc XOR xorAll (drop i (take len buf))"
proof (induction buf len i acc rule: computeChecksum_loop.induct)
  case (1 buf len i acc)
  show ?case
  proof (cases "i < len \<and> i < length buf")
    case True
    then have "drop i (take len buf) = buf ! i # drop (Suc i) (take len buf)"
      by (simp add: Cons_nth_drop_Suc [symmetric])
    moreover have "computeChecksum_loop buf len i acc =
        computeChecksum_loop buf len (Suc i) (acc XOR buf ! i)"
      using True by (simp add: computeChecksum_loop.simps [of buf len i acc])
    ultimately show ?thesis using "1.IH" True by (simp add: ac_simps)
  next
    case False
    then have "drop i (take len buf) = []" by auto
    moreover have "computeChecksum_loop buf len i acc = acc"
      using False by (subst computeChecksum_loop.simps) auto
    ultimately show ?thesis by simp
  qed
qed

lemma byte_mask: "(w :: byte) AND 0xFF = w"
proof -
  have "(0xFF :: byte) = - 1" by simp
  then show ?thesis by (simp only: and.right_neutral)
qed

lemma computeChecksum_eq: "computeChecksum buf len = unat (xorAll (take len buf))"
  by (simp add: computeChecksum_def computeChecksum_loop_eq byte_mask)

lemma xorAll_update:
  "i < length xs \<Longrightarrow> xorAll (xs[i := xs ! i XOR d]) = xorAll xs XOR d"
proof (induction xs arbitrary: i)
  case Nil
  then show ?case by simp
next
  case (Cons x xs)
  then show ?case by (cases i) (simp_all add: ac_simps)
qed

lemma push_bit_byte_nonzero: "k < 8 \<Longrightarrow> (push_bit k 1 :: byte) \<noteq> 0"
  by (simp add: push_bit_eq_mult)

section \<open>What the loops write and read\<close>

lemma length_writeString_loop: "length (writeString_loop buf offset val i) = length buf"
proof (induction buf offset val i rule: writeString_loop.induct)
  case (1 buf offset val i)
  then show ?case
    by (subst writeString_loop.simps) (simp add: length_setByte)
qed

lemma writeString_loop_fits:
  "offset + 1 + length val \<le> length buf \<Longrightarrow> i \<le> length val \<Longrightarrow>
   writeString_loop buf offset val i =
     take (offset + 1 + i) buf @ map of_nat (drop i val) @ drop (offset + 1 + length val) buf"
proof (induction buf offset val i rule: writeString_loop.induct)
  case (1 buf offset val i)
  show ?case
  proof (cases "i < length val")
    case True
    define k where "k = offset + 1 + i"
    define e where "e = offset + 1 + length val"
    let ?b = "setByte buf k (val ! i)"
    from True "1.prems" have inb: "k < length buf" and ke: "k < e"
      by (simp_all add: k_def e_def)
    have b: "?b = buf[k := of_nat (val ! i)]"
      using inb by (simp add: setByte_def)
    have "writeString_loop ?b offset val (Suc i) =
        take (offset + 1 + Suc i) ?b @ map of_nat (drop (Suc i) val) @ drop (offset + 1 + length val) ?b"
      using "1.IH" True inb "1.prems" by (simp add: length_setByte k_def)
    then have ih: "writeString_loop ?b offset val (Suc i) =
        take (Suc k) ?b @ map of_nat (drop (Suc i) val) @ drop e ?b"
      by (simp add: k_def e_def)
    have t: "take (Suc k) ?b = take k buf @ [of_nat (val ! i)]"
      using inb by (simp add: b take_Suc_conv_app_nth)
    have d: "drop e ?b = drop e buf"
      using ke by (simp add: b)
    have m: "map of_nat (drop i val) = (of_nat (val ! i) :: byte) # map of_nat (drop (Suc i) val)"
      using True by (simp add: Cons_nth_drop_Suc [symmetric])
    have "writeString_loop buf offset val i = writeString_loop ?b offset val (Suc i)"
      using True inb by (simp add: k_def writeString_loop.simps [of buf offset val i])
    also have "\<dots> = take k buf @ map of_nat (drop i val) @ drop e buf"
      by (simp only: ih t d m) simp
    finally show ?thesis by (simp add: k_def e_def)
  next
    case False
    have stop: "writeString_loop buf offset val i = buf"
      using False by (subst writeString_loop.simps) simp
    from False "1.prems" have il: "length val = i" by simp
    show ?thesis
      unfolding stop by (simp add: il)
  qed
qed

lemma writeString_append:
  assumes "length pre = offset" "length mid = length val"
  shows "writeString (pre @ x # mid @ post) offset val =
           (pre @ of_nat (length val) # map of_nat val @ post, 1 + length val)"
proof -
  let ?b = "pre @ of_nat (length val) # mid @ post"
  have s: "setByte (pre @ x # mid @ post) offset (length val) = ?b"
    using assms(1) by (rule setByte_append)
  have "writeString_loop ?b offset val 0 =
          take (offset + 1 + 0) ?b @ map of_nat (drop 0 val) @ drop (offset + 1 + length val) ?b"
    by (rule writeString_loop_fits) (use assms in simp_all)
  also have "\<dots> = pre @ of_nat (length val) # map of_nat val @ post"
    using assms by simp
  finally show ?thesis by (simp add: writeString_def s)
qed

lemma length_copyBuffer_loop: "length (copyBuffer_loop src dst offset i) = length dst"
proof (induction src dst offset i rule: copyBuffer_loop.induct)
  case (1 src dst offset i)
  then show ?case
    by (subst copyBuffer_loop.simps) simp
qed

lemma copyBuffer_loop_fits:
  "offset + length src \<le> length dst \<Longrightarrow> i \<le> length src \<Longrightarrow>
   copyBuffer_loop src dst offset i =
     take (offset + i) dst @ drop i src @ drop (offset + length src) dst"
proof (induction src dst offset i rule: copyBuffer_loop.induct)
  case (1 src dst offset i)
  show ?case
  proof (cases "i < length src")
    case True
    define k where "k = offset + i"
    define e where "e = offset + length src"
    let ?d = "dst[k := src ! i]"
    from True "1.prems" have inb: "k < length dst" and ke: "k < e"
      by (simp_all add: k_def e_def)
    have "copyBuffer_loop src ?d offset (Suc i) =
        take (offset + Suc i) ?d @ drop (Suc i) src @ drop (offset + length src) ?d"
      using "1.IH" True inb "1.prems" by (simp add: k_def)
    then have ih: "copyBuffer_loop src ?d offset (Suc i) =
        take (Suc k) ?d @ drop (Suc i) src @ drop e ?d"
      by (simp add: k_def e_def)
    have t: "take (Suc k) ?d = take k dst @ [src ! i]"
      using inb by (simp add: take_Suc_conv_app_nth)
    have d: "drop e ?d = drop e dst"
      using ke by simp
    have m: "drop i src = src ! i # drop (Suc i) src"
      using True by (simp add: Cons_nth_drop_Suc)
    have "copyBuffer_loop src dst offset i = copyBuffer_loop src ?d offset (Suc i)"
      using True inb by (simp add: k_def copyBuffer_loop.simps [of src dst offset i])
    also have "\<dots> = take k dst @ drop i src @ drop e dst"
      by (simp only: ih t d m) simp
    finally show ?thesis by (simp add: k_def e_def)
  next
    case False
    have stop: "copyBuffer_loop src dst offset i = dst"
      using False by (subst copyBuffer_loop.simps) simp
    from False "1.prems" have il: "length src = i" by simp
    show ?thesis
      unfolding stop by (simp add: il)
  qed
qed

lemma copyBuffer_append:
  assumes "length pre = offset" "length mid = length src"
  shows "copyBuffer src (pre @ mid @ post) offset = pre @ src @ post"
proof -
  have "copyBuffer_loop src (pre @ mid @ post) offset 0 =
          take (offset + 0) (pre @ mid @ post) @ drop 0 src @ drop (offset + length src) (pre @ mid @ post)"
    by (rule copyBuffer_loop_fits) (use assms in simp_all)
  also have "\<dots> = pre @ src @ post"
    using assms by simp
  finally show ?thesis by (simp add: copyBuffer_def)
qed

lemma readString_loop_eq:
  "readString_loop buf offset len i s = s @ map (\<lambda>j. getByte buf (offset + 1 + j)) [i..<len]"
proof (induction buf offset len i s rule: readString_loop.induct)
  case (1 buf offset len i s)
  show ?case
  proof (cases "i < len")
    case True
    then show ?thesis
      using "1.IH" by (simp add: upt_conv_Cons readString_loop.simps [of buf offset len i s])
  next
    case False
    then show ?thesis by (simp add: readString_loop.simps [of buf offset len i s])
  qed
qed

lemma readString_append:
  assumes "length pre = offset" "length val \<le> 255" "\<forall>c\<in>set val. c < 256"
  shows "readString (pre @ of_nat (length val) # map of_nat val @ post) offset = (val, 1 + length val)"
proof -
  let ?buf = "pre @ (of_nat (length val) :: byte) # map of_nat val @ post"
  have len0: "getByte ?buf offset = length val"
    using assms(1,2) by (simp add: getByte_append unat_of_nat_byte)
  have fits: "\<not> offset + 1 + length val > length ?buf"
    using assms(1) by simp
  have "map (\<lambda>j. getByte ?buf (offset + 1 + j)) [0..<length val] = val"
  proof (rule nth_equalityI)
    show "length (map (\<lambda>j. getByte ?buf (offset + 1 + j)) [0..<length val]) = length val"
      by simp
  next
    fix j
    assume "j < length (map (\<lambda>j. getByte ?buf (offset + 1 + j)) [0..<length val])"
    then have j: "j < length val" by simp
    then have "val ! j < 256" using assms(3) by simp
    moreover have "?buf ! (offset + 1 + j) = of_nat (val ! j)"
      using assms(1) j by (auto simp: nth_append)
    moreover have "offset + 1 + j < length ?buf" using assms(1) j by simp
    ultimately show "map (\<lambda>j. getByte ?buf (offset + 1 + j)) [0..<length val] ! j = val ! j"
      using j by (simp add: getByte_def unat_of_nat_byte)
  qed
  then show ?thesis
    using fits by (simp add: readString_def len0 readString_loop_eq Let_def del: length_append)
qed

section \<open>The frame that \<open>encodePacket\<close> builds, and its decoding\<close>

lemma length_frameBody:
  "length (frameBody lid ident destination payload flags) =
     7 + length lid + length destination + min 255 (length payload)"
  by (simp add: frameBody_def)

lemma computeChecksum_prefix: "computeChecksum (xs @ ys) (length xs) = unat (xorAll xs)"
  by (simp add: computeChecksum_eq)

lemma setByte_checksum:
  "setByte (body @ [0]) (length body) (computeChecksum (body @ [0]) (length body)) =
     body @ [xorAll body]"
  by (simp add: computeChecksum_prefix setByte_append [of body "length body" 0 "[]"])

lemma createBuffer_split:
  "createBuffer (1 + 1 + 2 + 1 + L + 1 + D + 1 + P + 1) =
     [0, 0, 0, 0] @ 0 # replicate L 0 @ 0 # replicate D 0 @ 0 # replicate P 0 @ [0]"
proof -
  have "1 + 1 + 2 + 1 + L + 1 + D + 1 + P + 1 = 4 + (Suc L + (Suc D + (Suc P + 1)))"
    by simp
  then have "createBuffer (1 + 1 + 2 + 1 + L + 1 + D + 1 + P + 1) =
      replicate 4 0 @ replicate (Suc L) 0 @ replicate (Suc D) 0 @ replicate (Suc P) 0 @ replicate 1 0"
    by (simp only: createBuffer_def replicate_add)
  also have "replicate 4 (0 :: byte) = [0, 0, 0, 0]"
    by (simp add: numeral_eq_Suc)
  finally show ?thesis by simp
qed

lemma encodePacket_header:
  "setUInt16LE (setByte (setByte ([0, 0, 0, 0] @ rest) 0 PROTOCOL_VERSION) 1 flags) 2 ident =
     [1, of_nat flags, of_nat (ident mod 256), of_nat (ident div 256 mod 256)] @ rest"
  by (simp add: setUInt16LE_def setByte_def PROTOCOL_VERSION_def)

lemma encodePacket_frame:
  "encodePacket s ident destination payload flags =
     (frameBody (localId s) (if ident = 0 then rng s (drawn s) else ident) destination payload flags
        @ [xorAll (frameBody (localId s) (if ident = 0 then rng s (drawn s) else ident)
                     destination payload flags)],
      if ident = 0 then s\<lparr>drawn := Suc (drawn s)\<rparr> else s)"
proof -
  define i1 where "i1 = (if ident = 0 then rng s (drawn s) else ident)"
  define s1 where "s1 = (if ident = 0 then s\<lparr>drawn := Suc (drawn s)\<rparr> else s)"
  have g: "(if ident = 0 then generatePacketId s else (ident, s)) = (i1, s1)"
    by (simp add: generatePacketId_def i1_def s1_def)
  have lid: "localId s1 = localId s"
    by (simp add: s1_def)
  define L where "L = length (localId s)"
  define D where "D = length destination"
  define P where "P = (if length payload > 255 then 255 else length payload)"
  define hdr :: buffer where
    "hdr = [1, of_nat flags, of_nat (i1 mod 256), of_nat (i1 div 256 mod 256)]"
  define src :: buffer where "src = of_nat L # map of_nat (localId s)"
  define dst :: buffer where "dst = of_nat D # map of_nat destination"
  have P: "P = min 255 (length payload)" by (simp add: P_def)
  have P2: "min (length payload) 255 = P" by (simp add: P_def)
  have lhdr: "length hdr = 4" by (simp add: hdr_def)
  have lsrc: "length src = 1 + L" by (simp add: src_def L_def)
  have ldst: "length dst = 1 + D" by (simp add: dst_def D_def)
  have pay: "slice payload 0 P = take 255 payload" "length (take 255 payload) = P"
    by (simp_all add: slice_def P_def)
  let ?b3 = "hdr @ 0 # replicate L 0 @ 0 # replicate D 0 @ 0 # replicate P 0 @ [0]"
  have b3: "setUInt16LE (setByte (setByte (createBuffer (1 + 1 + 2 + 1 + L + 1 + D + 1 + P + 1))
              0 PROTOCOL_VERSION) 1 flags) 2 i1 = ?b3"
    unfolding createBuffer_split hdr_def by (rule encodePacket_header)
  let ?b4 = "hdr @ src @ 0 # replicate D 0 @ 0 # replicate P 0 @ [0]"
  have b4: "writeString ?b3 4 (localId s) = (?b4, 1 + L)"
    using writeString_append [of hdr 4 "replicate L 0" "localId s" 0
        "0 # replicate D 0 @ 0 # replicate P 0 @ [0]"]
    by (simp add: lhdr L_def src_def)
  let ?b5 = "hdr @ src @ dst @ 0 # replicate P 0 @ [0]"
  have b5: "writeString ?b4 (4 + (1 + L)) destination = (?b5, 1 + D)"
    using writeString_append [of "hdr @ src" "4 + (1 + L)" "replicate D 0" destination 0
        "0 # replicate P 0 @ [0]"]
    by (simp add: lhdr lsrc D_def dst_def)
  let ?b6 = "hdr @ src @ dst @ of_nat P # replicate P 0 @ [0]"
  have b6: "setByte ?b5 (4 + (1 + L) + (1 + D)) P = ?b6"
    using setByte_append [of "hdr @ src @ dst" "4 + (1 + L) + (1 + D)" 0 "replicate P 0 @ [0]" P]
    by (simp add: lhdr lsrc ldst)
  let ?body = "hdr @ src @ dst @ of_nat P # take 255 payload"
  have b7: "copyBuffer (slice payload 0 P) ?b6 (4 + (1 + L) + (1 + D) + 1) = ?body @ [0]"
  proof -
    have "copyBuffer (take 255 payload) ((hdr @ src @ dst @ [of_nat P]) @ replicate P 0 @ [0])
            (4 + (1 + L) + (1 + D) + 1) = (hdr @ src @ dst @ [of_nat P]) @ take 255 payload @ [0]"
      by (rule copyBuffer_append) (simp_all add: lhdr lsrc ldst P_def)
    then show ?thesis by (simp add: pay(1))
  qed
  have body: "frameBody (localId s) i1 destination payload flags = ?body"
    by (simp add: frameBody_def hdr_def src_def dst_def L_def D_def P)
  have "encodePacket s ident destination payload flags =
          (setByte (?body @ [0]) (length ?body) (computeChecksum (?body @ [0]) (length ?body)), s1)"
    using g b3 b4 b5 b6 b7 lhdr lsrc ldst P2
    unfolding L_def D_def
    by (simp add: encodePacket_def Let_def P_def [symmetric] lid)
  then show ?thesis
    unfolding i1_def [symmetric] s1_def [symmetric]
    by (simp only: setByte_checksum body)
qed

lemma drop_length_append: "drop (length xs) (xs @ ys) = ys"
  by simp

lemma uint16_split: "n mod 256 + 256 * (n div 256 mod 256) = n mod 65536" for n :: nat
proof -
  have "n mod 65536 = n mod (256 * 256)" by simp
  also have "\<dots> = 256 * (n div 256 mod 256) + n mod 256"
    by (rule mod_mult2_eq)
  finally show ?thesis by simp
qed

lemma decodePacket_frame:
  assumes "length lid \<le> 255" "\<forall>c\<in>set lid. c < 256"
    and "length destination \<le> 255" "\<forall>c\<in>set destination. c < 256"
  shows "decodePacket (frameBody lid ident destination payload flags @ [c]) =
     \<lparr>pkt_version = 1, pkt_flags = flags mod 256, pkt_id = ident mod 65536,
      pkt_source = lid, pkt_destination = destination, pkt_payload = take 255 payload\<rparr>"
proof -
  define L where "L = length lid"
  define D where "D = length destination"
  define P where "P = min (length payload) 255"
  define hdr :: buffer where
    "hdr = [1, of_nat flags, of_nat (ident mod 256), of_nat (ident div 256 mod 256)]"
  define src :: buffer where "src = of_nat L # map of_nat lid"
  define dst :: buffer where "dst = of_nat D # map of_nat destination"
  define pay :: buffer where "pay = take 255 payload"
  have lhdr: "length hdr = 4" by (simp add: hdr_def)
  have lsrc: "length src = 1 + L" by (simp add: src_def L_def)
  have ldst: "length dst = 1 + D" by (simp add: dst_def D_def)
  have lpay: "length pay = P" by (simp add: pay_def P_def)
  have P: "P \<le> 255" by (simp add: P_def)
  let ?buf = "hdr @ src @ dst @ of_nat P # pay @ [c]"
  have buf: "frameBody lid ident destination payload flags @ [c] = ?buf"
    by (simp add: frameBody_def hdr_def src_def dst_def pay_def L_def D_def P_def min.commute)
  have lbuf: "length ?buf = 4 + (1 + L) + (1 + D) + 1 + P + 1"
    by (simp add: lhdr lsrc ldst lpay)
  have v: "getByte ?buf 0 = 1"
    by (simp add: getByte_def hdr_def)
  have f: "getByte ?buf 1 = flags mod 256"
    by (simp add: getByte_def hdr_def unat_of_nat)
  have i: "getUInt16LE ?buf 2 = ident mod 65536"
    by (simp add: getUInt16LE_def getByte_def hdr_def unat_of_nat uint16_split)
  have rs: "readString ?buf 4 = (lid, 1 + L)"
    unfolding src_def L_def
    using readString_append [of hdr 4 lid "dst @ of_nat P # pay @ [c]"] assms(1,2) lhdr
    by simp
  have rd: "readString ?buf (4 + (1 + L)) = (destination, 1 + D)"
    unfolding dst_def D_def
    using readString_append [of "hdr @ src" "4 + (1 + L)" destination "of_nat P # pay @ [c]"]
      assms(3,4) lhdr lsrc
    by simp
  have pl: "getByte ?buf (4 + (1 + L) + (1 + D)) = P"
    using getByte_append [of "hdr @ src @ dst" "4 + (1 + L) + (1 + D)" "of_nat P" "pay @ [c]"]
      lhdr lsrc ldst P
    by (simp add: unat_of_nat_byte)
  have sl: "slice ?buf (4 + (1 + L) + (1 + D) + 1) (4 + (1 + L) + (1 + D) + 1 + P) = pay"
  proof -
    have "drop (length (hdr @ src @ dst @ [of_nat P])) ((hdr @ src @ dst @ [of_nat P]) @ pay @ [c]) = pay @ [c]"
      by (rule drop_length_append)
    then have "drop (4 + (1 + L) + (1 + D) + 1) ?buf = pay @ [c]"
      by (simp add: lhdr lsrc ldst)
    then show ?thesis
      by (simp add: slice_def lpay)
  qed
  have "decodePacket ?buf =
     \<lparr>pkt_version = 1, pkt_flags = flags mod 256, pkt_id = ident mod 65536,
      pkt_source = lid, pkt_destination = destination, pkt_payload = pay\<rparr>"
    using v f i rs rd pl sl lbuf
    by (simp add: decodePacket_def Let_def)
  then show ?thesis
    by (simp only: buf pay_def)
qed

section \<open>Fields of a decoded packet\<close>

lemma pkt_flags_decodePacket: "pkt_flags (decodePacket buf) = getByte buf 1"
  by (simp add: decodePacket_def Let_def)

lemma pkt_id_decodePacket: "pkt_id (decodePacket buf) = getUInt16LE buf 2"
  by (simp add: decodePacket_def Let_def)

lemma pkt_source_decodePacket: "pkt_source (decodePacket buf) = fst (readString buf 4)"
  by (simp add: decodePacket_def Let_def)

lemma getUInt16LE_less: "getUInt16LE buf off < 65536"
  using getByte_less [of buf off] getByte_less [of buf "off + 1"]
  by (simp add: getUInt16LE_def)

lemma clamp_nat: "nat (max 0 (int a - int b)) = a - b"
  by linarith

lemma readString_length:
  "length (fst (readString buf offset)) =
     (if offset + 1 + getByte buf offset > length buf
      then length buf - (offset + 1) else getByte buf offset)"
  using clamp_nat [of "length buf" "offset + 1"]
  by (simp add: readString_def Let_def readString_loop_eq)

lemma readString_length_le: "length (fst (readString buf offset)) \<le> 255"
proof -
  have "getByte buf offset \<le> 255"
    using getByte_less [of buf offset] by simp
  then show ?thesis
    unfolding readString_length by auto
qed

lemma readString_chars: "c \<in> set (fst (readString buf offset)) \<Longrightarrow> c < 256"
  by (auto simp: readString_def Let_def readString_loop_eq getByte_less)

lemma getUInt16LE_frame: "getUInt16LE (frameBody lid ident destination payload flags @ [c]) 2 = ident mod 65536"
  by (simp add: getUInt16LE_def getByte_def frameBody_def unat_of_nat uint16_split)

lemma getByte_frame_flags: "getByte (frameBody lid ident destination payload flags @ [c]) 1 = flags mod 256"
  by (simp add: getByte_def frameBody_def unat_of_nat)

section \<open>The pending acknowledgments\<close>

lemma indexOf_from_absent: "x \<notin> set xs \<Longrightarrow> indexOf_from xs x i = - 1"
  by (induction xs arbitrary: i) auto

lemma indexOf_from_present:
  "x \<in> set xs \<Longrightarrow> \<exists>k. indexOf_from xs x i = int (i + k) \<and> removeAt xs k = remove1 x xs"
proof (induction xs arbitrary: i)
  case Nil
  then show ?case by simp
next
  case (Cons y ys)
  show ?case
  proof (cases "y = x")
    case True
    then have "indexOf_from (y # ys) x i = int (i + 0) \<and> removeAt (y # ys) 0 = remove1 x (y # ys)"
      by (simp add: removeAt_def)
    then show ?thesis by blast
  next
    case False
    with Cons.prems have "x \<in> set ys" by simp
    then obtain k where "indexOf_from ys x (Suc i) = int (Suc i + k)" "removeAt ys k = remove1 x ys"
      using Cons.IH by blast
    then have "indexOf_from (y # ys) x i = int (i + Suc k) \<and> removeAt (y # ys) (Suc k) = remove1 x (y # ys)"
      using False by (simp add: removeAt_def)
    then show ?thesis by blast
  qed
qed

lemma resolve_pending:
  "(let idx = indexOf acks x in if idx \<ge> 0 then removeAt acks (nat idx) else acks) = remove1 x acks"
proof (cases "x \<in> set acks")
  case True
  then obtain k where "indexOf_from acks x 0 = int (0 + k)" "removeAt acks k = remove1 x acks"
    using indexOf_from_present by blast
  then show ?thesis by (simp add: indexOf_def)
next
  case False
  then show ?thesis by (simp add: indexOf_def indexOf_from_absent remove1_idem)
qed

section \<open>The checksum\<close>

text \<open>
  C10. The checksum is the XOR of the bytes of the checked range (the first \<open>len\<close> bytes
  that the buffer has). Flipping one bit \<open>k\<close> of one byte \<open>i\<close> of the checked range changes
  the checksum; flipping the same bit \<open>k\<close> in a second byte \<open>j\<close> of the checked range as well
  gives the original checksum back.
\<close>

theorem checksum_bit_parity:
  assumes "i < len" "i < length buf" "k < 8"
  shows "computeChecksum buf len = unat (xorAll (take len buf)) \<and>
         computeChecksum (buf[i := flip_bit k (buf ! i)]) len \<noteq> computeChecksum buf len \<and>
         (j < len \<and> j < length buf \<and> j \<noteq> i \<longrightarrow>
            computeChecksum (buf[i := flip_bit k (buf ! i), j := flip_bit k (buf ! j)]) len
              = computeChecksum buf len)"
proof -
  define d :: byte where "d = push_bit k 1"
  define xs where "xs = take len buf"
  have d: "d \<noteq> 0" using assms(3) by (simp add: d_def push_bit_byte_nonzero)
  have flip: "flip_bit k b = b XOR d" for b :: byte
    by (simp add: d_def flip_bit_eq_xor)
  have i: "i < length xs" "xs ! i = buf ! i"
    using assms(1,2) by (simp_all add: xs_def)
  have one: "xorAll (take len (buf[i := flip_bit k (buf ! i)])) = xorAll xs XOR d"
    using xorAll_update [of i xs d] i by (simp add: flip take_update_swap xs_def)
  have "xorAll xs XOR d \<noteq> xorAll xs"
  proof
    assume "xorAll xs XOR d = xorAll xs"
    then have "xorAll xs XOR (xorAll xs XOR d) = xorAll xs XOR xorAll xs" by simp
    then have "d = 0" by (simp add: xor.assoc [symmetric])
    with d show False by simp
  qed
  then have first: "computeChecksum (buf[i := flip_bit k (buf ! i)]) len \<noteq> computeChecksum buf len"
    by (simp add: computeChecksum_eq one xs_def [symmetric] word_unat_eq_iff [symmetric])
  have second: "computeChecksum (buf[i := flip_bit k (buf ! i), j := flip_bit k (buf ! j)]) len
              = computeChecksum buf len" if j: "j < len" "j < length buf" "j \<noteq> i"
  proof -
    let ?ys = "xs[i := xs ! i XOR d]"
    have "take len (buf[i := flip_bit k (buf ! i), j := flip_bit k (buf ! j)]) = ?ys[j := ?ys ! j XOR d]"
      using j i by (simp add: flip take_update_swap xs_def)
    moreover have "xorAll (?ys[j := ?ys ! j XOR d]) = xorAll ?ys XOR d"
      using j i by (intro xorAll_update) (simp add: xs_def)
    moreover have "xorAll ?ys = xorAll xs XOR d"
      using i by (intro xorAll_update)
    ultimately show ?thesis
      by (simp add: computeChecksum_eq xs_def [symmetric] xor.assoc)
  qed
  show ?thesis
    using first second by (simp add: computeChecksum_eq)
qed

theorem checksum_bit_parity_witness:
  "computeChecksum [flip_bit 0 1, 2, 3] 3 \<noteq> computeChecksum [1, 2, 3] 3 \<and>
   computeChecksum [flip_bit 0 1, flip_bit 0 2, 3] 3 = computeChecksum [1, 2, 3] 3"
  using checksum_bit_parity [of 0 3 "[1, 2, 3]" 0 1] by simp

section \<open>The string field codec\<close>

text \<open>
  C9. For an offset inside the buffer, \<open>readString\<close> reads the smaller of the number in
  the length byte and the number of bytes that remain after it, so at most
  \<open>length buf - offset - 1\<close> characters; the characters are the bytes that follow the
  length byte, and the reported size is one more than their number.
\<close>

theorem readString_clamped:
  assumes "offset < length buf"
  shows "length (fst (readString buf offset)) = min (getByte buf offset) (length buf - offset - 1) \<and>
         length (fst (readString buf offset)) \<le> length buf - offset - 1 \<and>
         snd (readString buf offset) = 1 + length (fst (readString buf offset)) \<and>
         fst (readString buf offset) =
           map unat (take (min (getByte buf offset) (length buf - offset - 1)) (drop (offset + 1) buf))"
proof -
  define n where "n = min (getByte buf offset) (length buf - offset - 1)"
  have n: "length (fst (readString buf offset)) = n"
    using assms unfolding n_def readString_length by auto
  have size: "snd (readString buf offset) = 1 + n"
    using clamp_nat [of "length buf" "offset + 1"] assms
    by (auto simp: n_def readString_def Let_def)
  have val: "fst (readString buf offset) = map (\<lambda>j. getByte buf (offset + 1 + j)) [0..<n]"
    using clamp_nat [of "length buf" "offset + 1"] assms
    by (auto simp: n_def readString_def Let_def readString_loop_eq)
  have "map (\<lambda>j. getByte buf (offset + 1 + j)) [0..<n] = map unat (take n (drop (offset + 1) buf))"
  proof (rule nth_equalityI)
    show "length (map (\<lambda>j. getByte buf (offset + 1 + j)) [0..<n]) = length (map unat (take n (drop (offset + 1) buf)))"
      by (simp add: n_def)
  next
    fix j
    assume "j < length (map (\<lambda>j. getByte buf (offset + 1 + j)) [0..<n])"
    then have j: "j < n" by simp
    then have inb: "offset + 1 + j < length buf" unfolding n_def by linarith
    have "map (\<lambda>j. getByte buf (offset + 1 + j)) [0..<n] ! j = getByte buf (offset + 1 + j)"
      using j by simp
    also have "\<dots> = unat (buf ! (offset + 1 + j))"
      using inb by (simp add: getByte_def)
    also have "\<dots> = map unat (take n (drop (offset + 1) buf)) ! j"
      using j inb by simp
    finally show "map (\<lambda>j. getByte buf (offset + 1 + j)) [0..<n] ! j = map unat (take n (drop (offset + 1) buf)) ! j" .
  qed
  then show ?thesis
    using n size val unfolding n_def [symmetric] by (simp add: n_def)
qed

theorem readString_clamped_witness:
  "length (fst (readString [200, 65, 66] 0)) \<le> 2 \<and> fst (readString [200, 65, 66] 0) = [65, 66]"
  using readString_clamped [of 0 "[200, 65, 66]"] by (simp add: getByte_def)

text \<open>
  A string of 256 characters, written at the start of a buffer of 258 bytes: the length
  byte holds 0 (the length cut to eight bits), all 256 characters follow it, and the
  result is 257. Nothing is truncated to 255 characters. And a string of two characters
  written into a buffer of two bytes: the loop stops at the end of the buffer, so one
  character is written, and the result is 3.
\<close>

theorem writeString_long_string_counterexample:
  "fst (writeString (createBuffer 258) 0 (replicate 256 65)) = 0 # replicate 256 65 @ [0] \<and>
   snd (writeString (createBuffer 258) 0 (replicate 256 65)) = 257 \<and>
   getByte (fst (writeString (createBuffer 258) 0 (replicate 256 65))) 0 \<noteq> 255 \<and>
   snd (writeString (createBuffer 258) 0 (replicate 256 65)) \<noteq> 1 + 255 \<and>
   writeString (createBuffer 2) 0 [82, 67] = ([2, 82], 3)"
proof -
  have "(258 :: nat) = Suc (256 + 1)" by simp
  then have "createBuffer 258 = [] @ 0 # replicate 256 0 @ [0]"
    by (simp only: createBuffer_def replicate_Suc replicate_add) simp
  then have long: "writeString (createBuffer 258) 0 (replicate 256 65) =
      (0 # replicate 256 65 @ [0], 257)"
    using writeString_append [of "[]" 0 "replicate 256 0" "replicate 256 65" 0 "[0]"]
    by simp
  have c: "createBuffer 2 = [0, 0]"
    by (simp add: createBuffer_def numeral_eq_Suc)
  have "writeString_loop [2, 0] 0 [82, 67] 0 = writeString_loop [2, 82] 0 [82, 67] (Suc 0)"
    by (subst writeString_loop.simps) (simp add: setByte_def)
  also have "\<dots> = [2, 82]"
    by (subst writeString_loop.simps) simp
  finally have small: "writeString (createBuffer 2) 0 [82, 67] = ([2, 82], 3)"
    by (simp add: writeString_def c setByte_def)
  show ?thesis
    using long small by (simp add: getByte_def)
qed

text \<open>
  C8, as amended. For every string of at most 255 characters, written at an offset where
  the buffer has room for the length byte and the characters, \<open>writeString\<close> writes one
  length byte holding the length of the string, followed by one byte per character (the
  character code, cut to eight bits), leaves the rest of the buffer as it is, and returns
  1 plus the length.
\<close>

theorem writeString_short_string:
  assumes "length val \<le> 255" "offset + 1 + length val \<le> length buf"
  shows "fst (writeString buf offset val) =
           take offset buf @ of_nat (length val) # map of_nat val @ drop (offset + 1 + length val) buf \<and>
         getByte (fst (writeString buf offset val)) offset = length val \<and>
         snd (writeString buf offset val) = 1 + length val"
proof -
  define pre where "pre = take offset buf"
  define mid where "mid = take (length val) (drop (offset + 1) buf)"
  define post where "post = drop (offset + 1 + length val) buf"
  have lp: "length pre = offset" and lm: "length mid = length val"
    using assms(2) by (simp_all add: pre_def mid_def)
  have "buf = take offset buf @ drop offset buf" by simp
  also have "drop offset buf = buf ! offset # drop (Suc offset) buf"
    using assms(2) by (simp add: Cons_nth_drop_Suc)
  also have "drop (Suc offset) buf = mid @ post"
  proof -
    have "drop (length val) (drop (Suc offset) buf) = post"
      by (simp add: post_def add.commute)
    then show ?thesis
      using append_take_drop_id [of "length val" "drop (Suc offset) buf"]
      by (simp add: mid_def)
  qed
  finally have buf: "buf = pre @ buf ! offset # mid @ post"
    by (simp add: pre_def)
  have w: "writeString (pre @ buf ! offset # mid @ post) offset val =
      (pre @ of_nat (length val) # map of_nat val @ post, 1 + length val)"
    using lp lm by (rule writeString_append)
  have "getByte (pre @ of_nat (length val) # map of_nat val @ post) offset = length val"
    using assms(1) lp by (simp add: getByte_append unat_of_nat_byte)
  then show ?thesis
    using w unfolding buf [symmetric] by (simp add: pre_def post_def)
qed

theorem writeString_short_string_witness:
  "writeString (createBuffer 4) 0 (jstr ''RC'') = ([2, 82, 67, 0], 3)"
proof -
  have c: "createBuffer 4 = [0, 0, 0, 0]"
    by (simp add: createBuffer_def numeral_eq_Suc)
  show ?thesis
    using writeString_short_string [of "jstr ''RC''" 0 "createBuffer 4"]
    by (simp add: c jstr_def prod_eq_iff)
qed

section \<open>The frame codec\<close>

text \<open>
  C1. For an identifier from 1 to 65535, an ASCII destination of at most 255 characters,
  a payload of at most 255 bytes and a flags byte, decoding the frame that
  \<open>encodePacket\<close> produces gives back the identifier, the destination, the payload and
  the flags, with the local identity as the source (and the protocol version 1). The
  local identity is the decimal text of the device serial number; the theorem asks of it
  what it asks of a destination.
\<close>

theorem encode_decode_roundtrip:
  assumes "1 \<le> ident" "ident \<le> 65535"
    and "length destination \<le> 255" "\<forall>c\<in>set destination. c < 128"
    and "length payload \<le> 255"
    and "flags < 256"
    and "length (localId s) \<le> 255" "\<forall>c\<in>set (localId s). c < 128"
  shows "decodePacket (fst (encodePacket s ident destination payload flags)) =
     \<lparr>pkt_version = PROTOCOL_VERSION, pkt_flags = flags, pkt_id = ident,
      pkt_source = localId s, pkt_destination = destination, pkt_payload = payload\<rparr>"
proof -
  have d: "\<forall>c\<in>set destination. c < 256" using assms(4) by auto
  have l: "\<forall>c\<in>set (localId s). c < 256" using assms(8) by auto
  have "decodePacket (fst (encodePacket s ident destination payload flags)) =
     \<lparr>pkt_version = 1, pkt_flags = flags mod 256, pkt_id = ident mod 65536,
      pkt_source = localId s, pkt_destination = destination, pkt_payload = take 255 payload\<rparr>"
    using assms(1) decodePacket_frame [OF assms(7) l assms(3) d]
    by (simp add: encodePacket_frame)
  then show ?thesis
    using assms(2,5,6) by (simp add: PROTOCOL_VERSION_def)
qed

theorem encode_decode_roundtrip_witness:
  "decodePacket (fst (encodePacket exampleState 42 (jstr ''RC'') [0xFF] 0)) =
     \<lparr>pkt_version = 1, pkt_flags = 0, pkt_id = 42,
      pkt_source = jstr ''123'', pkt_destination = jstr ''RC'', pkt_payload = [0xFF]\<rparr>"
  using encode_decode_roundtrip [of 42 "jstr ''RC''" "[0xFF]" 0 exampleState]
  by (simp add: exampleState_def jstr_def PROTOCOL_VERSION_def)

text \<open>
  C7. For a payload of more than 255 bytes, decoding the encoded frame gives a payload of
  exactly 255 bytes, the first 255 of the input. The destination and the local identity
  are within the bounds of the data model (ASCII, at most 255 characters), as in C1.
\<close>

theorem payload_truncated:
  assumes "length payload > 255"
    and "length destination \<le> 255" "\<forall>c\<in>set destination. c < 128"
    and "length (localId s) \<le> 255" "\<forall>c\<in>set (localId s). c < 128"
  shows "pkt_payload (decodePacket (fst (encodePacket s ident destination payload flags))) =
           take 255 payload \<and>
         length (pkt_payload (decodePacket (fst (encodePacket s ident destination payload flags)))) = 255"
proof -
  have d: "\<forall>c\<in>set destination. c < 256" using assms(3) by auto
  have l: "\<forall>c\<in>set (localId s). c < 256" using assms(5) by auto
  show ?thesis
    using assms(1) decodePacket_frame [OF assms(4) l assms(2) d]
    by (simp add: encodePacket_frame)
qed

theorem payload_truncated_witness:
  "pkt_payload (decodePacket (fst (encodePacket exampleState 42 (jstr ''RC'') (replicate 300 7) 0))) =
     replicate 255 7"
  using payload_truncated [of "replicate 300 7" "jstr ''RC''" exampleState 42 0]
  by (simp add: exampleState_def jstr_def)

section \<open>Sending\<close>

text \<open>
  C2. When \<open>sendPacket\<close> is called with the \<open>ACK_REQUIRED\<close> bit set, one frame is handed
  to the transport and one identifier is appended to the pending acknowledgments, and
  that identifier is the one encoded in the frame. For the caller's identifier 0 it is the
  freshly generated one, from 1 to 65535, never 0. The caller's identifier is a 16-bit
  number, and \<^verbatim>\<open>randint(1, 65535)\<close> returns a number from 1 to 65535.
\<close>

theorem sendPacket_records_wire_id:
  assumes "flags AND FLAG_ACK_REQUIRED \<noteq> 0"
    and "ident \<le> 65535"
    and "\<forall>n. 1 \<le> rng s n \<and> rng s n \<le> 65535"
  shows "(let s' = sendPacket s ident payload destination flags;
              frame = last (sent s');
              wireId = pkt_id (decodePacket frame)
          in sent s' = sent s @ [frame] \<and>
             pendingAcks s' = pendingAcks s @ [wireId] \<and>
             wireId = (if ident = 0 then rng s (drawn s) else ident) \<and>
             1 \<le> wireId \<and> wireId \<le> 65535)"
proof -
  define i1 where "i1 = (if ident = 0 then rng s (drawn s) else ident)"
  define s1 where "s1 = (if ident = 0 then s\<lparr>drawn := Suc (drawn s)\<rparr> else s)"
  define frame where "frame = frameBody (localId s) i1 destination payload flags
      @ [xorAll (frameBody (localId s) i1 destination payload flags)]"
  have r: "1 \<le> rng s (drawn s)" "rng s (drawn s) \<le> 65535"
    using assms(3) by simp_all
  have i1: "1 \<le> i1" "i1 \<le> 65535"
    using r assms(2) by (auto simp: i1_def)
  have g: "(if ident = 0 then generatePacketId s else (ident, s)) = (i1, s1)"
    by (simp add: generatePacketId_def i1_def s1_def)
  have s1: "localId s1 = localId s" "sent s1 = sent s" "pendingAcks s1 = pendingAcks s"
    by (simp_all add: s1_def)
  have e: "encodePacket s1 i1 destination payload flags = (frame, s1)"
    using i1(1) by (simp add: encodePacket_frame frame_def s1(1))
  have sp: "sendPacket s ident payload destination flags =
      s1\<lparr>sent := sent s1 @ [frame], pendingAcks := pendingAcks s1 @ [i1]\<rparr>"
    using assms(1) by (simp add: sendPacket_def g e Let_def)
  have w: "pkt_id (decodePacket frame) = i1"
    using i1(2) by (simp add: pkt_id_decodePacket frame_def getUInt16LE_frame)
  show ?thesis
    using sp s1 w i1 unfolding i1_def [symmetric] by (simp add: Let_def)
qed

theorem sendPacket_records_wire_id_witness:
  "sent (sendPacket exampleState 0 [1, 2] (jstr ''RC'') 1) =
     [last (sent (sendPacket exampleState 0 [1, 2] (jstr ''RC'') 1))] \<and>
   pkt_id (decodePacket (last (sent (sendPacket exampleState 0 [1, 2] (jstr ''RC'') 1)))) = 4242 \<and>
   pendingAcks (sendPacket exampleState 0 [1, 2] (jstr ''RC'') 1) = [7, 9, 7, 4242]"
  using sendPacket_records_wire_id [of 1 0 exampleState "[1, 2]" "jstr ''RC''"]
  by (simp add: exampleState_def exampleRng_def FLAG_ACK_REQUIRED_def Let_def)

section \<open>The dispatcher\<close>

text \<open>
  A frame passes the two checks of the dispatcher when it has at least 6 bytes and its
  last byte is the checksum of the bytes before it. What the dispatcher does then depends
  on the decoded packet only.
\<close>

lemma checksum_check:
  assumes "6 \<le> length buf"
  shows "computeChecksum buf (length buf - 1) = getByte buf (length buf - 1) \<longleftrightarrow>
           last buf = xorAll (butlast buf)"
proof -
  from assms have ne: "buf \<noteq> []" by auto
  have "getByte buf (length buf - 1) = unat (last buf)"
    using ne by (simp add: getByte_def last_conv_nth)
  moreover have "computeChecksum buf (length buf - 1) = unat (xorAll (butlast buf))"
    by (simp add: computeChecksum_eq butlast_conv_take)
  ultimately show ?thesis
    by (auto simp: word_unat_eq_iff)
qed

lemma encodePacket_keeps:
  "localId (snd (encodePacket s ident destination payload flags)) = localId s"
  "receiveHandler (snd (encodePacket s ident destination payload flags)) = receiveHandler s"
  "pendingAcks (snd (encodePacket s ident destination payload flags)) = pendingAcks s"
  "sent (snd (encodePacket s ident destination payload flags)) = sent s"
  "handled (snd (encodePacket s ident destination payload flags)) = handled s"
  by (simp_all add: encodePacket_frame)

lemma onReceivedBuffer_valid:
  assumes "6 \<le> length buf"
    and "computeChecksum buf (length buf - 1) = getByte buf (length buf - 1)"
  shows "onReceivedBuffer s (Some buf) =
     (if pkt_flags (decodePacket buf) AND FLAG_IS_ACK \<noteq> 0
      then s\<lparr>pendingAcks := remove1 (pkt_id (decodePacket buf)) (pendingAcks s)\<rparr>
      else
        let s1 = (if pkt_flags (decodePacket buf) AND FLAG_ACK_REQUIRED \<noteq> 0
                  then (snd (encodePacket s (pkt_id (decodePacket buf)) (pkt_source (decodePacket buf))
                               (createBuffer 0) FLAG_IS_ACK))
                         \<lparr>sent := sent s @ [fst (encodePacket s (pkt_id (decodePacket buf))
                                       (pkt_source (decodePacket buf)) (createBuffer 0) FLAG_IS_ACK)]\<rparr>
                  else s)
        in if receiveHandler s \<and>
              (pkt_destination (decodePacket buf) = localId s \<or>
               pkt_destination (decodePacket buf) = jstr ''*'' \<or>
               pkt_destination (decodePacket buf) = jstr '''')
           then s1\<lparr>handled := handled s @ [decodePacket buf]\<rparr>
           else s1)"
proof -
  have r: "(let idx = indexOf (pendingAcks s) x
            in if idx \<ge> 0 then s\<lparr>pendingAcks := removeAt (pendingAcks s) (nat idx)\<rparr> else s) =
           s\<lparr>pendingAcks := remove1 x (pendingAcks s)\<rparr>" for x
    using resolve_pending [of "pendingAcks s" x]
    by (auto simp: Let_def split: if_splits)
  show ?thesis
    using assms
    by (simp add: onReceivedBuffer_def r)
       (simp add: Let_def split_beta encodePacket_keeps)
qed

lemma ack_sent:
  assumes "6 \<le> length buf"
    and "computeChecksum buf (length buf - 1) = getByte buf (length buf - 1)"
    and "pkt_flags (decodePacket buf) AND FLAG_ACK_REQUIRED \<noteq> 0"
    and "pkt_flags (decodePacket buf) AND FLAG_IS_ACK = 0"
  shows "sent (onReceivedBuffer s (Some buf)) =
     sent s @ [fst (encodePacket s (pkt_id (decodePacket buf)) (pkt_source (decodePacket buf))
                      (createBuffer 0) FLAG_IS_ACK)]"
  using assms(3,4)
  by (simp add: onReceivedBuffer_valid [OF assms(1,2)] Let_def)

lemma decode_ack:
  assumes "length (localId s) \<le> 255" "\<forall>c\<in>set (localId s). c < 256"
  shows "decodePacket (fst (encodePacket s (pkt_id (decodePacket buf)) (pkt_source (decodePacket buf))
                              (createBuffer 0) FLAG_IS_ACK)) =
     \<lparr>pkt_version = PROTOCOL_VERSION, pkt_flags = FLAG_IS_ACK,
      pkt_id = (if pkt_id (decodePacket buf) = 0 then rng s (drawn s) mod 65536
                else pkt_id (decodePacket buf)),
      pkt_source = localId s, pkt_destination = pkt_source (decodePacket buf), pkt_payload = []\<rparr>"
proof -
  have l: "length (pkt_source (decodePacket buf)) \<le> 255"
    by (simp add: pkt_source_decodePacket readString_length_le)
  have c: "\<forall>c\<in>set (pkt_source (decodePacket buf)). c < 256"
    by (simp add: pkt_source_decodePacket readString_chars)
  have i: "pkt_id (decodePacket buf) mod 65536 = pkt_id (decodePacket buf)"
    using getUInt16LE_less [of buf 2] by (simp add: pkt_id_decodePacket)
  show ?thesis
    using i decodePacket_frame [OF assms l c]
    by (simp add: encodePacket_frame PROTOCOL_VERSION_def FLAG_IS_ACK_def createBuffer_def)
qed

text \<open>
  C4. For an absent buffer, a buffer of fewer than 6 bytes, and a buffer whose last byte
  is not the XOR of the bytes before it, the dispatcher returns the state it was given:
  no handler invocation, no frame handed to the transport, the pending acknowledgments
  unchanged.
\<close>

theorem drop_malformed:
  assumes "arg = None \<or>
           (\<exists>buf. arg = Some buf \<and> (length buf < 6 \<or> last buf \<noteq> xorAll (butlast buf)))"
  shows "onReceivedBuffer s arg = s"
proof (cases arg)
  case None
  then show ?thesis by (simp add: onReceivedBuffer_def)
next
  case (Some buf)
  with assms have c: "length buf < 6 \<or> last buf \<noteq> xorAll (butlast buf)" by simp
  show ?thesis
  proof (cases "length buf < 6")
    case True
    then show ?thesis by (simp add: Some onReceivedBuffer_def)
  next
    case False
    then have "computeChecksum buf (length buf - 1) \<noteq> getByte buf (length buf - 1)"
      using c checksum_check [of buf] by simp
    then show ?thesis using False by (simp add: Some onReceivedBuffer_def)
  qed
qed

theorem drop_malformed_witness:
  "onReceivedBuffer exampleState None = exampleState \<and>
   onReceivedBuffer exampleState (Some [1, 3, 7, 0, 5]) = exampleState \<and>
   onReceivedBuffer exampleState (Some [1, 3, 7, 0, 0, 0, 0, 99]) = exampleState"
  using drop_malformed [of None exampleState]
    drop_malformed [of "Some [1, 3, 7, 0, 5]" exampleState]
    drop_malformed [of "Some [1, 3, 7, 0, 0, 0, 0, 99]" exampleState]
  by simp

text \<open>
  C6. For a frame that passes the checks and has the \<open>IS_ACK\<close> bit set, the dispatcher
  removes the first occurrence of the frame's identifier from the pending
  acknowledgments (\<open>remove1\<close>: the entries before the first occurrence and the entries
  after it remain, in their order), changes nothing when the identifier is not there,
  does not invoke the handler and sends nothing.
\<close>

theorem ack_frame_resolves:
  assumes "6 \<le> length buf"
    and "computeChecksum buf (length buf - 1) = getByte buf (length buf - 1)"
    and "pkt_flags (decodePacket buf) AND FLAG_IS_ACK \<noteq> 0"
  shows "pendingAcks (onReceivedBuffer s (Some buf)) =
           remove1 (pkt_id (decodePacket buf)) (pendingAcks s) \<and>
         (\<forall>pre post. pendingAcks s = pre @ pkt_id (decodePacket buf) # post \<and>
              pkt_id (decodePacket buf) \<notin> set pre \<longrightarrow>
            pendingAcks (onReceivedBuffer s (Some buf)) = pre @ post) \<and>
         (pkt_id (decodePacket buf) \<notin> set (pendingAcks s) \<longrightarrow>
            onReceivedBuffer s (Some buf) = s) \<and>
         handled (onReceivedBuffer s (Some buf)) = handled s \<and>
         sent (onReceivedBuffer s (Some buf)) = sent s"
  using assms(3)
  by (simp add: onReceivedBuffer_valid [OF assms(1,2)] remove1_idem remove1_append)

theorem ack_frame_resolves_witness:
  "pendingAcks (onReceivedBuffer exampleState (Some [1, 2, 7, 0, 0, 0, 0, 4])) = [9, 7] \<and>
   onReceivedBuffer exampleState (Some [1, 2, 8, 0, 0, 0, 0, 11]) = exampleState \<and>
   handled (onReceivedBuffer exampleState (Some [1, 2, 7, 0, 0, 0, 0, 4])) = []"
  using ack_frame_resolves [of "[1, 2, 7, 0, 0, 0, 0, 4]" exampleState]
    ack_frame_resolves [of "[1, 2, 8, 0, 0, 0, 0, 11]" exampleState]
  by (simp add: computeChecksum_eq getByte_def pkt_flags_decodePacket pkt_id_decodePacket
      getUInt16LE_def FLAG_IS_ACK_def exampleState_def)

text \<open>
  An inbound frame that carries the identifier 0, with \<open>ACK_REQUIRED\<close> set: the
  acknowledgment is built by \<open>encodePacket\<close>, which replaces the identifier 0 by a
  generated one, so the acknowledgment sent carries 4242 here and not the identifier of
  the received frame.
\<close>

theorem ack_id_zero_counterexample:
  "6 \<le> length zeroIdFrame \<and>
   computeChecksum zeroIdFrame (length zeroIdFrame - 1) = getByte zeroIdFrame (length zeroIdFrame - 1) \<and>
   pkt_flags (decodePacket zeroIdFrame) AND FLAG_ACK_REQUIRED \<noteq> 0 \<and>
   pkt_flags (decodePacket zeroIdFrame) AND FLAG_IS_ACK = 0 \<and>
   pkt_id (decodePacket zeroIdFrame) = 0 \<and>
   length (sent (onReceivedBuffer exampleState (Some zeroIdFrame))) = 1 \<and>
   pkt_id (decodePacket (last (sent (onReceivedBuffer exampleState (Some zeroIdFrame))))) = 4242 \<and>
   pkt_id (decodePacket (last (sent (onReceivedBuffer exampleState (Some zeroIdFrame))))) \<noteq>
     pkt_id (decodePacket zeroIdFrame)"
proof -
  have len: "6 \<le> length zeroIdFrame"
    by (simp add: zeroIdFrame_def)
  have cs: "computeChecksum zeroIdFrame (length zeroIdFrame - 1) =
      getByte zeroIdFrame (length zeroIdFrame - 1)"
    by (simp add: zeroIdFrame_def computeChecksum_eq getByte_def)
  have fl: "pkt_flags (decodePacket zeroIdFrame) = 1"
    by (simp add: zeroIdFrame_def pkt_flags_decodePacket getByte_def)
  have ident: "pkt_id (decodePacket zeroIdFrame) = 0"
    by (simp add: zeroIdFrame_def pkt_id_decodePacket getUInt16LE_def getByte_def)
  have f1: "(1::nat) AND FLAG_ACK_REQUIRED \<noteq> 0" and f2: "(1::nat) AND FLAG_IS_ACK = 0"
    by (simp_all add: FLAG_ACK_REQUIRED_def FLAG_IS_ACK_def)
  have l: "length (localId exampleState) \<le> 255" "\<forall>c\<in>set (localId exampleState). c < 256"
    by (simp_all add: exampleState_def jstr_def)
  have snt: "sent (onReceivedBuffer exampleState (Some zeroIdFrame)) =
      [fst (encodePacket exampleState (pkt_id (decodePacket zeroIdFrame))
             (pkt_source (decodePacket zeroIdFrame)) (createBuffer 0) FLAG_IS_ACK)]"
    using ack_sent [OF len cs, of exampleState] f1 f2
    by (simp add: fl) (simp add: exampleState_def)
  have "pkt_id (decodePacket (last (sent (onReceivedBuffer exampleState (Some zeroIdFrame))))) = 4242"
    unfolding snt using decode_ack [OF l, of zeroIdFrame]
    by (simp add: ident) (simp add: exampleState_def exampleRng_def)
  then show ?thesis
    using len cs f1 f2 by (simp add: fl ident snt)
qed

text \<open>
  C5, as amended. For a frame that passes the checks, has \<open>ACK_REQUIRED\<close> set and
  \<open>IS_ACK\<close> clear, and carries an identifier other than 0, exactly one frame is handed to
  the transport; decoded, it has the identifier of the received packet, the flags
  \<open>IS_ACK\<close>, the source of the received packet as its destination and an empty payload.
  Nothing is assumed about the destination of the received frame. The local identity is
  within the bounds of the data model.
\<close>

theorem ack_reply:
  assumes "6 \<le> length buf"
    and "computeChecksum buf (length buf - 1) = getByte buf (length buf - 1)"
    and "pkt_flags (decodePacket buf) AND FLAG_ACK_REQUIRED \<noteq> 0"
    and "pkt_flags (decodePacket buf) AND FLAG_IS_ACK = 0"
    and "pkt_id (decodePacket buf) \<noteq> 0"
    and "length (localId s) \<le> 255" "\<forall>c\<in>set (localId s). c < 256"
  shows "(let s' = onReceivedBuffer s (Some buf); ack = last (sent s')
          in sent s' = sent s @ [ack] \<and>
             decodePacket ack =
               \<lparr>pkt_version = PROTOCOL_VERSION, pkt_flags = FLAG_IS_ACK,
                pkt_id = pkt_id (decodePacket buf), pkt_source = localId s,
                pkt_destination = pkt_source (decodePacket buf), pkt_payload = []\<rparr>)"
  using assms(5) decode_ack [OF assms(6,7), of buf]
  by (simp add: ack_sent [OF assms(1-4)] Let_def)

theorem ack_reply_witness:
  "sent (onReceivedBuffer exampleState (Some [1, 1, 7, 0, 1, 65, 1, 90, 0, 28])) =
     [last (sent (onReceivedBuffer exampleState (Some [1, 1, 7, 0, 1, 65, 1, 90, 0, 28])))] \<and>
   decodePacket (last (sent (onReceivedBuffer exampleState (Some [1, 1, 7, 0, 1, 65, 1, 90, 0, 28])))) =
     \<lparr>pkt_version = 1, pkt_flags = 2, pkt_id = 7, pkt_source = jstr ''123'',
      pkt_destination = [65], pkt_payload = []\<rparr>"
proof -
  have f: "[1, 1, 7, 0, 1, 65, 1, 90, 0, 28] = frameBody [65] 7 [90] [] 1 @ [28]"
    by (simp add: frameBody_def)
  have src: "pkt_source (decodePacket [1, 1, 7, 0, 1, 65, 1, 90, 0, 28]) = [65]"
    unfolding f by (subst decodePacket_frame) simp_all
  show ?thesis
    using ack_reply [of "[1, 1, 7, 0, 1, 65, 1, 90, 0, 28]" exampleState]
    by (simp add: src computeChecksum_eq getByte_def pkt_flags_decodePacket pkt_id_decodePacket
        getUInt16LE_def FLAG_IS_ACK_def FLAG_ACK_REQUIRED_def PROTOCOL_VERSION_def
        exampleState_def jstr_def Let_def)
qed

text \<open>
  C3. For a frame that passes the checks and is not an acknowledgment, with a handler
  registered, the handler is invoked with the decoded packet exactly when the decoded
  destination is the local identity, \<^verbatim>\<open>"*"\<close> or the empty string; with any other
  destination the handler is not invoked.
\<close>

theorem handler_iff_destination:
  assumes "6 \<le> length buf"
    and "computeChecksum buf (length buf - 1) = getByte buf (length buf - 1)"
    and "pkt_flags (decodePacket buf) AND FLAG_IS_ACK = 0"
    and "receiveHandler s"
  shows "handled (onReceivedBuffer s (Some buf)) =
     (if pkt_destination (decodePacket buf) = localId s \<or>
         pkt_destination (decodePacket buf) = jstr ''*'' \<or>
         pkt_destination (decodePacket buf) = jstr ''''
      then handled s @ [decodePacket buf]
      else handled s)"
  using assms(3,4)
  by (simp add: onReceivedBuffer_valid [OF assms(1,2)] Let_def encodePacket_keeps)

theorem handler_iff_destination_witness:
  "handled (onReceivedBuffer exampleState (Some [1, 0, 7, 0, 0, 1, 42, 0, 45])) =
     [decodePacket [1, 0, 7, 0, 0, 1, 42, 0, 45]] \<and>
   handled (onReceivedBuffer exampleState (Some [1, 0, 7, 0, 0, 1, 90, 0, 93])) = []"
proof -
  have f1: "[1, 0, 7, 0, 0, 1, 42, 0, 45] = frameBody [] 7 [42] [] 0 @ [45]"
    and f2: "[1, 0, 7, 0, 0, 1, 90, 0, 93] = frameBody [] 7 [90] [] 0 @ [93]"
    by (simp_all add: frameBody_def)
  have d1: "pkt_destination (decodePacket [1, 0, 7, 0, 0, 1, 42, 0, 45]) = [42]"
    unfolding f1 by (subst decodePacket_frame) simp_all
  have d2: "pkt_destination (decodePacket [1, 0, 7, 0, 0, 1, 90, 0, 93]) = [90]"
    unfolding f2 by (subst decodePacket_frame) simp_all
  show ?thesis
    using handler_iff_destination [of "[1, 0, 7, 0, 0, 1, 42, 0, 45]" exampleState]
      handler_iff_destination [of "[1, 0, 7, 0, 0, 1, 90, 0, 93]" exampleState]
    by (simp add: d1 d2 computeChecksum_eq getByte_def pkt_flags_decodePacket
        exampleState_def jstr_def)
qed

end
